theory Spec2Isabelle
  imports Main
begin

section \<open>JavaScript values used by the viewer\<close>

text \<open>
  Numbers that the viewer handles are minute-of-day ordinals, array lengths and counters:
  all of them integers far below \<open>2^53\<close>, so a JavaScript \<open>number\<close> is embedded as
  \<^typ>\<open>int\<close>. Strings are \<^typ>\<open>string\<close>: the locators and file names of the viewer are
  made of 8-bit characters.

  A value thrown by \<^verbatim>\<open>throw\<close>, or the reason of a rejected promise that is
  \<^verbatim>\<open>await\<close>ed: either an \<^verbatim>\<open>Error\<close> instance with its message, or anything else.
  Code that may throw returns \<open>thrown + 'a\<close>, with \<open>Inl\<close> for the exception.
\<close>

datatype thrown = Error string | NonError

text \<open>
  Template-literal rendering of an integer, \<^verbatim>\<open>`${minute}`\<close>: decimal digits, a leading
  minus sign for negative numbers.
\<close>

definition digit_char :: "nat \<Rightarrow> char" where
  "digit_char d = ''0123456789'' ! d"

function nat_toString :: "nat \<Rightarrow> string" where
  "nat_toString n =
     (if n < 10 then [digit_char n] else nat_toString (n div 10) @ [digit_char (n mod 10)])"
  by pat_completeness auto
termination
  by (relation "measure (\<lambda>n. n)") auto

declare nat_toString.simps [simp del]

definition number_toString :: "int \<Rightarrow> string" where
  "number_toString i =
     (if i < 0 then CHR ''-'' # nat_toString (nat (- i)) else nat_toString (nat i))"

text \<open>
  \<^verbatim>\<open>Array.prototype.sort(cmp)\<close> is a stable sort (ECMAScript 2019). For a consistent
  comparator every stable sort returns the same array, so it is embedded as the stable
  insertion sort: an element goes before the first later element it does not exceed.
\<close>

fun js_insort :: "('a \<Rightarrow> 'a \<Rightarrow> int) \<Rightarrow> 'a \<Rightarrow> 'a list \<Rightarrow> 'a list" where
  "js_insort cmp x [] = [x]"
| "js_insort cmp x (y # ys) = (if cmp x y \<le> 0 then x # y # ys else y # js_insort cmp x ys)"

definition js_sort :: "('a \<Rightarrow> 'a \<Rightarrow> int) \<Rightarrow> 'a list \<Rightarrow> 'a list" where
  "js_sort cmp xs = foldr (js_insort cmp) xs []"


section \<open>imageService.ts: the probe-based frame discovery\<close>

datatype PrinterId = H2c | H2d

fun printer_id :: "PrinterId \<Rightarrow> string" where
  "printer_id H2c = ''h2c''"
| "printer_id H2d = ''h2d''"

definition BASE_URL :: string where
  "BASE_URL = ''https://res.cloudinary.com/dh1i2mqa6/image/upload/v1770469171/bambu''"

definition getImageUrl :: "PrinterId \<Rightarrow> int \<Rightarrow> string" where
  "getImageUrl printer m =
     BASE_URL @ ''/'' @ printer_id printer @ ''_'' @ number_toString m @ ''.jpg''"

text \<open>
  What happens when the browser is asked to load an image from a URL. The network is a
  function from the URL to the outcome of the request; one scan asks for every URL at most
  once. The \<^verbatim>\<open>Image\<close> element fires \<^verbatim>\<open>load\<close> when the resource arrived and decoded,
  and \<^verbatim>\<open>error\<close> for every failure; every request is taken to settle with one of the two.
\<close>

datatype fetch_outcome = ImageOk | NotFound | NetworkFailure | HttpStatus nat | Malformed

datatype img_event = OnLoad | OnError

type_synonym network = "string \<Rightarrow> fetch_outcome"

fun image_load :: "fetch_outcome \<Rightarrow> img_event" where
  "image_load ImageOk = OnLoad"
| "image_load _ = OnError"

text \<open>
  \<^verbatim>\<open>imageExists\<close>: the promise is resolved by both handlers and rejected by none.
  The result is the value that \<^verbatim>\<open>await imageExists(url)\<close> yields, or the exception it
  throws.
\<close>

definition imageExists :: "network \<Rightarrow> string \<Rightarrow> thrown + bool" where
  "imageExists net u = (case image_load (net u) of OnLoad \<Rightarrow> Inr True | OnError \<Rightarrow> Inr False)"

record FrameData =
  minute :: int
  url :: string

text \<open>
  The local variables of \<^verbatim>\<open>findRecentImages\<close>, and the URLs it has asked the network
  for (its only effect), in the order of the requests.
\<close>

record scan_state =
  results :: "FrameData list"
  consecutiveMisses :: int
  probed :: "string list"

text \<open>The \<^verbatim>\<open>for\<close> loop, entered with loop variable \<open>m\<close>.\<close>

function scan_loop ::
  "network \<Rightarrow> PrinterId \<Rightarrow> int \<Rightarrow> int \<Rightarrow> int \<Rightarrow> scan_state \<Rightarrow> thrown + scan_state" where
  "scan_loop net printer count maxGap m st =
     (if m \<ge> 0 \<and> int (length (results st)) < count then
        (case imageExists net (getImageUrl printer m) of
           Inl e \<Rightarrow> Inl e
         | Inr exists \<Rightarrow>
             if exists then
               scan_loop net printer count maxGap (m - 1)
                 (st\<lparr>results := results st @ [\<lparr>minute = m, url = getImageUrl printer m\<rparr>],
                     consecutiveMisses := 0,
                     probed := probed st @ [getImageUrl printer m]\<rparr>)
             else if consecutiveMisses st + 1 \<ge> maxGap then
               Inr (st\<lparr>consecutiveMisses := consecutiveMisses st + 1,
                       probed := probed st @ [getImageUrl printer m]\<rparr>)
             else
               scan_loop net printer count maxGap (m - 1)
                 (st\<lparr>consecutiveMisses := consecutiveMisses st + 1,
                     probed := probed st @ [getImageUrl printer m]\<rparr>))
      else Inr st)"
  by pat_completeness auto
termination
  by (relation "measure (\<lambda>(net, printer, count, maxGap, m, st). nat (m + 1))") auto

declare scan_loop.simps [simp del]

text \<open>
  \<^verbatim>\<open>findRecentImages\<close> returns the frames oldest first; the second component is the
  list of URLs that were probed.
\<close>

definition findRecentImages ::
  "network \<Rightarrow> PrinterId \<Rightarrow> int \<Rightarrow> int \<Rightarrow> int \<Rightarrow> thrown + (FrameData list \<times> string list)" where
  "findRecentImages net printer startMinute count maxGap =
     (case scan_loop net printer count maxGap startMinute
             \<lparr>results = [], consecutiveMisses = 0, probed = []\<rparr> of
        Inl e \<Rightarrow> Inl e
      | Inr st \<Rightarrow> Inr (rev (results st), probed st))"


section \<open>useOneDriveImages.ts: the listing-based discovery\<close>

text \<open>
  One entry of the share listing. The two download-URL properties are optional.
\<close>

record OneDriveChild =
  name :: string
  graph_downloadUrl :: "string option"
  content_downloadUrl :: "string option"

record PrinterImages =
  name :: string
  frames :: "string list"

text \<open>
  \<^verbatim>\<open>child.name.match(/^(.+)-(\d+)\.jpg$/i)\<close>. The name has to end in \<^verbatim>\<open>.jpg\<close> in
  any letter case. Before that stands a non-empty run of decimal digits, which the
  pattern can only match as a whole, because the character in front of the digits it
  takes has to be the hyphen; in front of the hyphen stands the printer name, non-empty
  and free of line terminators (which \<^verbatim>\<open>.\<close> does not match; among 8-bit characters
  these are line feed and carriage return). The result is the pair of the two groups.
\<close>

definition is_digit :: "char \<Rightarrow> bool" where
  "is_digit c = (c \<in> set ''0123456789'')"

definition line_terminator :: "char \<Rightarrow> bool" where
  "line_terminator c = (c = CHR 0x0A \<or> c = CHR 0x0D)"

definition jpg_extension :: "string \<Rightarrow> bool" where
  "jpg_extension e =
     (case e of
        [a, b, c, d] \<Rightarrow>
          a = CHR ''.'' \<and> (b = CHR ''j'' \<or> b = CHR ''J'') \<and> (c = CHR ''p'' \<or> c = CHR ''P'') \<and>
          (d = CHR ''g'' \<or> d = CHR ''G'')
      | _ \<Rightarrow> False)"

definition match_name :: "string \<Rightarrow> (string \<times> string) option" where
  "match_name s =
     (let stem = take (length s - 4) s;
          ext = drop (length s - 4) s;
          digits = rev (takeWhile is_digit (rev stem));
          front = take (length stem - length digits) stem
      in if jpg_extension ext \<and> digits \<noteq> [] \<and> front \<noteq> [] \<and> last front = CHR ''-'' \<and>
            butlast front \<noteq> [] \<and> \<not> list_ex line_terminator (butlast front)
         then Some (butlast front, digits) else None)"

text \<open>
  \<^verbatim>\<open>parseInt(digits, 10)\<close> on a non-empty string of decimal digits (exact as long as
  the number is below \<open>2^53\<close>).
\<close>

definition digit_value :: "char \<Rightarrow> int" where
  "digit_value c = int (length (takeWhile (\<lambda>d. d \<noteq> c) ''0123456789''))"

definition parseInt :: "string \<Rightarrow> int" where
  "parseInt ds = foldl (\<lambda>acc c. 10 * acc + digit_value c) 0 ds"

text \<open>
  \<^verbatim>\<open>a || b\<close> where \<open>a\<close> is an optional string: \<^verbatim>\<open>undefined\<close> and the empty string
  are falsy.
\<close>

definition or_else :: "string option \<Rightarrow> string \<Rightarrow> string" where
  "or_else a b = (case a of None \<Rightarrow> b | Some u \<Rightarrow> if u = [] then b else u)"

definition downloadUrl :: "OneDriveChild \<Rightarrow> string" where
  "downloadUrl child = or_else (content_downloadUrl child) (or_else (graph_downloadUrl child) [])"

text \<open>
  \<^verbatim>\<open>printerMap\<close> is a \<^verbatim>\<open>Map\<close>, which iterates in the order in which its keys were first
  set: an association list with new keys at the end. A frame of a group is the pair of
  its \<^verbatim>\<open>num\<close> and its \<^verbatim>\<open>url\<close>. \<open>map_push\<close> is the three statements
  \<^verbatim>\<open>if (!has(k)) set(k, []); get(k).push(x)\<close>.
\<close>

type_synonym printer_map = "(string \<times> (int \<times> string) list) list"

fun map_push :: "string \<Rightarrow> int \<times> string \<Rightarrow> printer_map \<Rightarrow> printer_map" where
  "map_push k x [] = [(k, [x])]"
| "map_push k x ((k', xs) # m) =
     (if k = k' then (k', xs @ [x]) # m else (k', xs) # map_push k x m)"

text \<open>The body of the loop over the children, and the loop.\<close>

definition add_child :: "printer_map \<Rightarrow> OneDriveChild \<Rightarrow> printer_map" where
  "add_child m child =
     (case match_name (OneDriveChild.name child) of
        None \<Rightarrow> m
      | Some (printerName, digits) \<Rightarrow>
          if downloadUrl child = [] then m
          else map_push printerName (parseInt digits, downloadUrl child) m)"

definition group_children :: "OneDriveChild list \<Rightarrow> printer_map" where
  "group_children children = foldl add_child [] children"

text \<open>
  The second loop and the final sort. \<^verbatim>\<open>String.prototype.localeCompare\<close> depends on
  the locale of the browser, so it is a parameter.
\<close>

definition build_result :: "(string \<Rightarrow> string \<Rightarrow> int) \<Rightarrow> printer_map \<Rightarrow> PrinterImages list" where
  "build_result localeCompare m =
     js_sort (\<lambda>a b. localeCompare (name a) (name b))
       (map (\<lambda>(n, fs). \<lparr>name = n, frames = map snd (js_sort (\<lambda>a b. fst a - fst b) fs)\<rparr>) m)"

text \<open>
  What \<^verbatim>\<open>await fetch(apiUrl)\<close> and \<^verbatim>\<open>await res.json()\<close> give: the request may be
  rejected; a response has \<^verbatim>\<open>ok\<close> and \<^verbatim>\<open>status\<close>; its body may fail to parse, and
  the parsed object may lack \<^verbatim>\<open>value\<close>.
\<close>

datatype json_body = JsonRejected thrown | JsonData "OneDriveChild list option"

datatype fetch_response = FetchRejected thrown | Response bool nat json_body

record hook_state =
  printers :: "PrinterImages list"
  loading :: bool
  error :: "string option"

definition initial_hook_state :: hook_state where
  "initial_hook_state = \<lparr>printers = [], loading = True, error = None\<rparr>"

text \<open>The part of the \<^verbatim>\<open>try\<close> block that obtains \<open>children\<close>, or throws.\<close>

definition fetch_children :: "fetch_response \<Rightarrow> thrown + OneDriveChild list" where
  "fetch_children resp =
     (case resp of
        FetchRejected e \<Rightarrow> Inl e
      | Response ok status body \<Rightarrow>
          if \<not> ok then Inl (Error (''OneDrive API returned '' @ nat_toString status))
          else (case body of
                  JsonRejected e \<Rightarrow> Inl e
                | JsonData v \<Rightarrow> Inr (case v of None \<Rightarrow> [] | Some cs \<Rightarrow> cs)))"

text \<open>
  \<^verbatim>\<open>fetchImages\<close>. \<open>cancelled\<close> is the value of the flag when the function reads it,
  after its last \<^verbatim>\<open>await\<close>: the cleanup of the effect sets it on unmount.
\<close>

definition fetchImages ::
  "(string \<Rightarrow> string \<Rightarrow> int) \<Rightarrow> fetch_response \<Rightarrow> bool \<Rightarrow> hook_state \<Rightarrow> hook_state" where
  "fetchImages localeCompare resp cancelled st =
     (case fetch_children resp of
        Inr children \<Rightarrow>
          if cancelled then st
          else st\<lparr>printers := build_result localeCompare (group_children children),
                  loading := False\<rparr>
      | Inl err \<Rightarrow>
          if cancelled then st
          else st\<lparr>error := Some (case err of Error msg \<Rightarrow> msg | NonError \<Rightarrow> ''Failed to load images''),
                  loading := False\<rparr>)"


section \<open>The frame store of the probe-based views\<close>

text \<open>
  The two probe-based views that refresh incrementally keep the discovered frames in a
  React state cell and update it with the same updater function,
  \<^verbatim>\<open>setFrames((prev) => ...)\<close>. (The plain player only ever replaces the cell by the
  result of a scan.) The updater either
  hands back \<^verbatim>\<open>prev\<close> itself, and React then keeps the state and schedules no
  re-render (the new state is compared to the old one with \<^verbatim>\<open>Object.is\<close>), or it hands
  back an array that was newly built, which always replaces the state and signals an
  update, whatever its contents.
\<close>

datatype 'a next_state = SamePrev | Fresh 'a

definition apply_update :: "'a \<Rightarrow> 'a next_state \<Rightarrow> 'a" where
  "apply_update prev nxt = (case nxt of SamePrev \<Rightarrow> prev | Fresh x \<Rightarrow> x)"

text \<open>
  The updater of \<^verbatim>\<open>loadImages\<close>. \<open>images\<close> is the array that
  \<^verbatim>\<open>findRecentImages\<close> built for this call.
\<close>

definition setFrames_updater ::
  "bool \<Rightarrow> FrameData list \<Rightarrow> FrameData list \<Rightarrow> FrameData list next_state" where
  "setFrames_updater isInitial images prev =
     (if \<not> isInitial \<and> length prev > 0 then
        (let existingMinutes = set (map minute prev);
             newFrames = filter (\<lambda>f. minute f \<notin> existingMinutes) images
         in if length newFrames = 0 then SamePrev
            else Fresh (js_sort (\<lambda>a b. minute a - minute b) (prev @ newFrames)))
      else Fresh images)"


section \<open>The start/stop player view\<close>

text \<open>
  The view with scrubber, play/pause, speed buttons and a Start/Stop live feed. Its state
  cells, its two interval handles (whether the interval is running), and the calls of
  \<^verbatim>\<open>loadImages\<close> that are suspended at \<^verbatim>\<open>await findRecentImages(...)\<close>, each with
  its \<open>isInitial\<close> argument and the minute of day it read from the clock.
\<close>

record view =
  frames :: "FrameData list"
  currentIndex :: int
  playing :: bool
  loading :: bool
  speed :: int
  live :: bool
  hasLoaded :: bool
  refreshTimer :: bool
  advanceTimer :: bool
  inflight :: "(bool \<times> int) list"

definition initial_view :: view where
  "initial_view =
     \<lparr>frames = [], currentIndex = 0, playing = False, loading = False, speed = 500,
      live = False, hasLoaded = False, refreshTimer = False, advanceTimer = False,
      inflight = []\<rparr>"

text \<open>
  The two \<^verbatim>\<open>useEffect\<close> hooks after a commit: each clears the interval it had set and
  sets a new one when its condition holds.
\<close>

definition run_effects :: "view \<Rightarrow> view" where
  "run_effects v =
     v\<lparr>refreshTimer := live v \<and> hasLoaded v,
       advanceTimer := playing v \<and> length (frames v) > 1\<rparr>"

text \<open>\<^verbatim>\<open>loadImages\<close> up to its \<^verbatim>\<open>await\<close>, and from there on.\<close>

definition loadImages_call :: "bool \<Rightarrow> int \<Rightarrow> view \<Rightarrow> view" where
  "loadImages_call isInitial currentMinute v =
     (let v1 = (if isInitial then v\<lparr>loading := True\<rparr> else v)
      in v1\<lparr>inflight := inflight v1 @ [(isInitial, currentMinute)]\<rparr>)"

definition loadImages_resume ::
  "bool \<Rightarrow> thrown + (FrameData list \<times> string list) \<Rightarrow> view \<Rightarrow> view" where
  "loadImages_resume isInitial awaited v =
     (case awaited of
        Inl e \<Rightarrow> v
      | Inr (images, _) \<Rightarrow>
          (let v1 = v\<lparr>frames := apply_update (frames v) (setFrames_updater isInitial images (frames v))\<rparr>
           in if isInitial then
                v1\<lparr>currentIndex := (if length images > 0 then int (length images) - 1 else 0),
                   loading := False,
                   hasLoaded := True\<rparr>
              else v1\<lparr>currentIndex := currentIndex v1\<rparr>))"

definition startFeed :: "int \<Rightarrow> view \<Rightarrow> view" where
  "startFeed now v = loadImages_call True now (v\<lparr>live := True\<rparr>)"

definition stopFeed :: "view \<Rightarrow> view" where
  "stopFeed v = v\<lparr>live := False, playing := False, refreshTimer := False\<rparr>"

text \<open>
  What can happen to the view. \<open>StartFeed\<close> and \<open>RefreshTick\<close> carry the minute of day
  that \<^verbatim>\<open>getUKMinutesSinceMidnight()\<close> returns at that moment; \<open>Resolve i net\<close> is the
  \<open>i\<close>-th suspended call of \<^verbatim>\<open>loadImages\<close> resuming, its scan having run against the
  network \<open>net\<close>. The other events are the interval callbacks and the controls.
\<close>

datatype event =
    StartFeed int
  | StopFeed
  | RefreshTick int
  | AdvanceTick
  | Resolve nat network
  | Scrub int
  | GoToStart
  | PrevFrame
  | TogglePlay
  | NextFrame
  | GoToLatest
  | SetSpeed int

fun handle :: "PrinterId \<Rightarrow> event \<Rightarrow> view \<Rightarrow> view" where
  "handle printer (StartFeed now) v = startFeed now v"
| "handle printer StopFeed v = stopFeed v"
| "handle printer (RefreshTick now) v =
     (if refreshTimer v then loadImages_call False now v else v)"
| "handle printer AdvanceTick v =
     (if advanceTimer v then
        v\<lparr>currentIndex :=
            (if currentIndex v \<ge> int (length (frames v)) - 1 then 0 else currentIndex v + 1)\<rparr>
      else v)"
| "handle printer (Resolve i net) v =
     (if i < length (inflight v) then
        (case inflight v ! i of
           (isInitial, currentMinute) \<Rightarrow>
             loadImages_resume isInitial (findRecentImages net printer currentMinute 60 10)
               (v\<lparr>inflight := take i (inflight v) @ drop (Suc i) (inflight v)\<rparr>))
      else v)"
| "handle printer (Scrub n) v = v\<lparr>currentIndex := n, playing := False\<rparr>"
| "handle printer GoToStart v = v\<lparr>currentIndex := 0, playing := False\<rparr>"
| "handle printer PrevFrame v = v\<lparr>currentIndex := max 0 (currentIndex v - 1), playing := False\<rparr>"
| "handle printer TogglePlay v = v\<lparr>playing := \<not> playing v\<rparr>"
| "handle printer NextFrame v =
     v\<lparr>currentIndex := min (int (length (frames v)) - 1) (currentIndex v + 1), playing := False\<rparr>"
| "handle printer GoToLatest v = v\<lparr>currentIndex := int (length (frames v)) - 1, playing := False\<rparr>"
| "handle printer (SetSpeed s) v = v\<lparr>speed := s\<rparr>"

text \<open>An event is handled, the state is committed, and the effects run.\<close>

definition step :: "PrinterId \<Rightarrow> event \<Rightarrow> view \<Rightarrow> view" where
  "step printer e v = run_effects (handle printer e v)"

definition run :: "PrinterId \<Rightarrow> event list \<Rightarrow> view \<Rightarrow> view" where
  "run printer es v = foldl (\<lambda>v e. step printer e v) v es"


section \<open>The live-loop view\<close>

text \<open>
  The view that starts by itself and cycles through the last \<open>LOOP_COUNT\<close> frames while
  live. \<open>loopTimer\<close> is the loop interval, with the length of the loop window that its
  callback has captured.
\<close>

definition LOOP_COUNT :: nat where
  "LOOP_COUNT = 10"

text \<open>
  The remainder operator \<^verbatim>\<open>%\<close> on integers: the sign follows the dividend. (A zero
  divisor gives \<^verbatim>\<open>NaN\<close>; both uses below are guarded by a positive length.)
\<close>

definition js_rem :: "int \<Rightarrow> int \<Rightarrow> int" where
  "js_rem a b = (if a < 0 then - ((- a) mod \<bar>b\<bar>) else a mod \<bar>b\<bar>)"

record loop_view =
  frames :: "FrameData list"
  loopIndex :: int
  loading :: bool
  live :: bool
  refreshTimer :: bool
  loopTimer :: "int option"
  inflight :: "(bool \<times> int) list"

definition initial_loop_view :: loop_view where
  "initial_loop_view =
     \<lparr>frames = [], loopIndex = 0, loading = True, live = True, refreshTimer = False,
      loopTimer = None, inflight = []\<rparr>"

text \<open>\<^verbatim>\<open>frames.slice(-LOOP_COUNT)\<close>: the last \<open>LOOP_COUNT\<close> frames, or all if there are fewer.\<close>

definition loopFrames :: "loop_view \<Rightarrow> FrameData list" where
  "loopFrames v = drop (length (frames v) - LOOP_COUNT) (frames v)"

definition safeIndex :: "loop_view \<Rightarrow> int" where
  "safeIndex v =
     (if length (loopFrames v) > 0 then js_rem (loopIndex v) (int (length (loopFrames v))) else 0)"

text \<open>\<^verbatim>\<open>loopFrames[safeIndex] ?? null\<close>: \<open>None\<close> is \<^verbatim>\<open>null\<close>.\<close>

definition currentFrame :: "loop_view \<Rightarrow> FrameData option" where
  "currentFrame v =
     (if 0 \<le> safeIndex v \<and> safeIndex v < int (length (loopFrames v))
      then Some (loopFrames v ! nat (safeIndex v)) else None)"

definition loop_run_effects :: "loop_view \<Rightarrow> loop_view" where
  "loop_run_effects v =
     v\<lparr>refreshTimer := live v,
       loopTimer := (if \<not> live v \<or> length (loopFrames v) \<le> 1 then None
                     else Some (int (length (loopFrames v))))\<rparr>"

definition loop_loadImages_call :: "bool \<Rightarrow> int \<Rightarrow> loop_view \<Rightarrow> loop_view" where
  "loop_loadImages_call isInitial currentMinute v =
     (let v1 = (if isInitial then v\<lparr>loading := True\<rparr> else v)
      in v1\<lparr>inflight := inflight v1 @ [(isInitial, currentMinute)]\<rparr>)"

definition loop_loadImages_resume ::
  "bool \<Rightarrow> thrown + (FrameData list \<times> string list) \<Rightarrow> loop_view \<Rightarrow> loop_view" where
  "loop_loadImages_resume isInitial awaited v =
     (case awaited of
        Inl e \<Rightarrow> v
      | Inr (images, _) \<Rightarrow>
          (let v1 = v\<lparr>frames := apply_update (frames v) (setFrames_updater isInitial images (frames v))\<rparr>
           in if isInitial then v1\<lparr>loading := False\<rparr> else v1))"

text \<open>
  \<open>AutoStart\<close> is the effect that calls \<^verbatim>\<open>loadImages(true)\<close>: it runs on mount and
  again whenever the \<^verbatim>\<open>printer\<close> prop changes.
\<close>

datatype loop_event =
    AutoStart int
  | LoopStartFeed int
  | LoopStopFeed
  | LoopRefreshTick int
  | LoopTick
  | LoopResolve nat network

fun loop_handle :: "PrinterId \<Rightarrow> loop_event \<Rightarrow> loop_view \<Rightarrow> loop_view" where
  "loop_handle printer (AutoStart now) v = loop_loadImages_call True now v"
| "loop_handle printer (LoopStartFeed now) v = loop_loadImages_call False now (v\<lparr>live := True\<rparr>)"
| "loop_handle printer LoopStopFeed v = v\<lparr>live := False\<rparr>"
| "loop_handle printer (LoopRefreshTick now) v =
     (if refreshTimer v then loop_loadImages_call False now v else v)"
| "loop_handle printer LoopTick v =
     (case loopTimer v of
        None \<Rightarrow> v
      | Some n \<Rightarrow> v\<lparr>loopIndex := js_rem (loopIndex v + 1) n\<rparr>)"
| "loop_handle printer (LoopResolve i net) v =
     (if i < length (inflight v) then
        (case inflight v ! i of
           (isInitial, currentMinute) \<Rightarrow>
             loop_loadImages_resume isInitial (findRecentImages net printer currentMinute 60 10)
               (v\<lparr>inflight := take i (inflight v) @ drop (Suc i) (inflight v)\<rparr>))
      else v)"

definition loop_step :: "PrinterId \<Rightarrow> loop_event \<Rightarrow> loop_view \<Rightarrow> loop_view" where
  "loop_step printer e v = loop_run_effects (loop_handle printer e v)"

definition loop_run :: "PrinterId \<Rightarrow> loop_event list \<Rightarrow> loop_view \<Rightarrow> loop_view" where
  "loop_run printer es v = foldl (\<lambda>v e. loop_step printer e v) v es"


section \<open>Properties of the discovery scan\<close>

subsection \<open>Distinct ordinals have distinct locators\<close>

lemma digit_char_inj: "a < 10 \<Longrightarrow> b < 10 \<Longrightarrow> digit_char a = digit_char b \<Longrightarrow> a = b"
proof -
  assume a: "a < 10" and b: "b < 10" and e: "digit_char a = digit_char b"
  have d: "distinct ''0123456789''" by simp
  have "''0123456789'' ! a = ''0123456789'' ! b" using e by (simp add: digit_char_def)
  with d a b show "a = b" by (simp add: nth_eq_iff_index_eq)
qed

lemma digit_char_not_minus: "d < 10 \<Longrightarrow> digit_char d \<noteq> CHR ''-''"
proof -
  assume "d < 10"
  then have "digit_char d \<in> set ''0123456789''"
    unfolding digit_char_def by (intro nth_mem) simp
  then show ?thesis by auto
qed

lemma nat_toString_nonempty: "nat_toString n \<noteq> []"
  by (subst nat_toString.simps) simp

lemma nat_toString_no_minus: "CHR ''-'' \<notin> set (nat_toString n)"
proof (induction n rule: nat_toString.induct)
  case (1 n)
  show ?case
  proof (cases "n < 10")
    case True
    then show ?thesis using digit_char_not_minus [of n]
      by (subst nat_toString.simps) simp
  next
    case False
    then show ?thesis using 1 digit_char_not_minus [of "n mod 10"]
      by (subst nat_toString.simps) simp
  qed
qed

lemma nat_toString_inj: "nat_toString n = nat_toString k \<Longrightarrow> n = k"
proof (induction n arbitrary: k rule: nat_toString.induct)
  case (1 n)
  show ?case
  proof (cases "n < 10")
    case True
    note n = True
    show ?thesis
    proof (cases "k < 10")
      case True
      with n "1.prems" show ?thesis
        by (simp add: nat_toString.simps [of n] nat_toString.simps [of k] digit_char_inj)
    next
      case False
      with n "1.prems" nat_toString_nonempty [of "k div 10"] show ?thesis
        by (simp add: nat_toString.simps [of n] nat_toString.simps [of k])
    qed
  next
    case False
    note n = False
    show ?thesis
    proof (cases "k < 10")
      case True
      with n "1.prems" nat_toString_nonempty [of "n div 10"] show ?thesis
        by (simp add: nat_toString.simps [of n] nat_toString.simps [of k])
    next
      case False
      with n "1.prems" have "nat_toString (n div 10) = nat_toString (k div 10)"
        and "digit_char (n mod 10) = digit_char (k mod 10)"
        by (simp_all add: nat_toString.simps [of n] nat_toString.simps [of k])
      then have "n div 10 = k div 10" and "n mod 10 = k mod 10"
        using "1.IH" [OF n] digit_char_inj [of "n mod 10" "k mod 10"] by simp_all
      then show ?thesis by (metis div_mult_mod_eq)
    qed
  qed
qed

lemma number_toString_sign:
  "i < 0 \<Longrightarrow> \<not> j < 0 \<Longrightarrow> number_toString i \<noteq> number_toString j"
proof
  assume "i < 0" and "\<not> j < 0" and "number_toString i = number_toString j"
  then have "CHR ''-'' # nat_toString (nat (- i)) = nat_toString (nat j)"
    by (simp add: number_toString_def)
  then have "CHR ''-'' \<in> set (nat_toString (nat j))"
    by (metis list.set_intros(1))
  then show False
    using nat_toString_no_minus by blast
qed

lemma number_toString_inj: "number_toString i = number_toString j \<Longrightarrow> i = j"
proof -
  assume e: "number_toString i = number_toString j"
  consider "i < 0" "j < 0" | "i < 0" "\<not> j < 0" | "\<not> i < 0" "j < 0" | "\<not> i < 0" "\<not> j < 0"
    by blast
  then show "i = j"
  proof cases
    case 1
    with e have "nat (- i) = nat (- j)"
      by (simp add: number_toString_def nat_toString_inj)
    with 1 show ?thesis by simp
  next
    case 2
    with e number_toString_sign [of i j] show ?thesis by simp
  next
    case 3
    with e number_toString_sign [of j i] show ?thesis by simp
  next
    case 4
    with e have "nat i = nat j"
      by (simp add: number_toString_def nat_toString_inj)
    with 4 show ?thesis by simp
  qed
qed

lemma getImageUrl_inj: "getImageUrl p i = getImageUrl p j \<longleftrightarrow> i = j"
  by (auto simp: getImageUrl_def dest: number_toString_inj)

subsection \<open>The scan loop\<close>

lemma imageExists_eq: "imageExists net u = Inr (net u = ImageOk)"
  by (cases "net u") (simp_all add: imageExists_def)

lemma scan_loop_unfold:
  "scan_loop net printer count maxGap m st =
     (if m \<ge> 0 \<and> int (length (results st)) < count then
        if net (getImageUrl printer m) = ImageOk then
          scan_loop net printer count maxGap (m - 1)
            (st\<lparr>results := results st @ [\<lparr>minute = m, url = getImageUrl printer m\<rparr>],
                consecutiveMisses := 0,
                probed := probed st @ [getImageUrl printer m]\<rparr>)
        else if consecutiveMisses st + 1 \<ge> maxGap then
          Inr (st\<lparr>consecutiveMisses := consecutiveMisses st + 1,
                  probed := probed st @ [getImageUrl printer m]\<rparr>)
        else
          scan_loop net printer count maxGap (m - 1)
            (st\<lparr>consecutiveMisses := consecutiveMisses st + 1,
                probed := probed st @ [getImageUrl printer m]\<rparr>)
      else Inr st)"
  by (subst scan_loop.simps) (simp add: imageExists_eq)

text \<open>
  The proof rule of the loop: an invariant \<open>I\<close> of the loop variable and the scan state
  that both continuing branches keep, and a postcondition \<open>Q\<close> that holds where the loop
  is left (by \<^verbatim>\<open>break\<close> or by its condition). The loop then returns, without an
  exception, a state that satisfies \<open>Q\<close>.
\<close>

lemma scan_loop_rule:
  assumes init: "I m st"
    and hit: "\<And>m st. I m st \<Longrightarrow> 0 \<le> m \<Longrightarrow> int (length (results st)) < count \<Longrightarrow>
        net (getImageUrl printer m) = ImageOk \<Longrightarrow>
        I (m - 1) (st\<lparr>results := results st @ [\<lparr>minute = m, url = getImageUrl printer m\<rparr>],
                consecutiveMisses := 0,
                probed := probed st @ [getImageUrl printer m]\<rparr>)"
    and miss: "\<And>m st. I m st \<Longrightarrow> 0 \<le> m \<Longrightarrow> int (length (results st)) < count \<Longrightarrow>
        net (getImageUrl printer m) \<noteq> ImageOk \<Longrightarrow> consecutiveMisses st + 1 < maxGap \<Longrightarrow>
        I (m - 1) (st\<lparr>consecutiveMisses := consecutiveMisses st + 1,
                probed := probed st @ [getImageUrl printer m]\<rparr>)"
    and brk: "\<And>m st. I m st \<Longrightarrow> 0 \<le> m \<Longrightarrow> int (length (results st)) < count \<Longrightarrow>
        net (getImageUrl printer m) \<noteq> ImageOk \<Longrightarrow> maxGap \<le> consecutiveMisses st + 1 \<Longrightarrow>
        Q (st\<lparr>consecutiveMisses := consecutiveMisses st + 1,
                probed := probed st @ [getImageUrl printer m]\<rparr>)"
    and exit: "\<And>m st. I m st \<Longrightarrow> \<not> (0 \<le> m \<and> int (length (results st)) < count) \<Longrightarrow> Q st"
  shows "\<exists>st'. scan_loop net printer count maxGap m st = Inr st' \<and> Q st'"
  using init
proof (induction "nat (m + 1)" arbitrary: m st rule: less_induct)
  case less
  note IH = less.hyps and inv = less.prems
  let ?u = "getImageUrl printer m"
  let ?hit = "st\<lparr>results := results st @ [\<lparr>minute = m, url = ?u\<rparr>],
                consecutiveMisses := 0, probed := probed st @ [?u]\<rparr>"
  let ?miss = "st\<lparr>consecutiveMisses := consecutiveMisses st + 1, probed := probed st @ [?u]\<rparr>"
  show ?case
  proof (cases "0 \<le> m \<and> int (length (results st)) < count")
    case False
    then have "scan_loop net printer count maxGap m st = Inr st"
      by (subst scan_loop_unfold) (simp only: if_False)
    moreover have "Q st"
      using inv False by (rule exit)
    ultimately show ?thesis by simp
  next
    case True
    then have m: "0 \<le> m" and len: "int (length (results st)) < count"
      by simp_all
    show ?thesis
    proof (cases "net ?u = ImageOk")
      case True
      have "I (m - 1) ?hit"
        using inv m len True by (rule hit)
      with IH [of "m - 1" ?hit] m
      have "\<exists>st'. scan_loop net printer count maxGap (m - 1) ?hit = Inr st' \<and> Q st'"
        by simp
      moreover have "scan_loop net printer count maxGap m st =
          scan_loop net printer count maxGap (m - 1) ?hit"
        using m len True by (subst scan_loop_unfold) simp
      ultimately show ?thesis by simp
    next
      case False
      note nohit = False
      show ?thesis
      proof (cases "maxGap \<le> consecutiveMisses st + 1")
        case True
        have "Q ?miss"
          using inv m len nohit True by (rule brk)
        moreover have "scan_loop net printer count maxGap m st = Inr ?miss"
          using m len nohit True by (subst scan_loop_unfold) simp
        ultimately show ?thesis by simp
      next
        case False
        then have lt: "consecutiveMisses st + 1 < maxGap" by simp
        have "I (m - 1) ?miss"
          using inv m len nohit lt by (rule miss)
        with IH [of "m - 1" ?miss] m
        have "\<exists>st'. scan_loop net printer count maxGap (m - 1) ?miss = Inr st' \<and> Q st'"
          by simp
        moreover have "scan_loop net printer count maxGap m st =
            scan_loop net printer count maxGap (m - 1) ?miss"
          using m len nohit False by (subst scan_loop_unfold) simp
        ultimately show ?thesis by simp
      qed
    qed
  qed
qed

subsection \<open>A start below zero\<close>

text \<open>
  C10: for every printer and every start ordinal below 0 the scan issues no probe and
  returns the empty sequence.
\<close>

theorem findRecentImages_negative_start:
  "startMinute < 0 \<Longrightarrow> findRecentImages net printer startMinute count maxGap = Inr ([], [])"
  by (simp add: findRecentImages_def scan_loop.simps)

theorem findRecentImages_negative_start_witness:
  "(-1 :: int) < 0 \<and> findRecentImages (\<lambda>u. ImageOk) H2c (-1) 60 10 = Inr ([], [])"
  using findRecentImages_negative_start [of "-1" "\<lambda>u. ImageOk" H2c 60 10] by simp

subsection \<open>A scan that ends at a gap\<close>

text \<open>
  C1, as the code has it: on a network where, for this printer, exactly the frames of
  the ordinals 95, 94 and 90 exist, the scan that starts at 95 with \<open>maxGap = 3\<close> and
  asks for at least 3 frames collects the frames of 95 and 94, probes 93, 92 and 91 in
  vain, stops there, never asks for the frame of 90, and returns the two frames in
  ascending order. (The callers pass a count of 60.)
\<close>

theorem findRecentImages_gap_example:
  assumes pattern: "\<forall>m. (net (getImageUrl printer m) = ImageOk) = (m \<in> {95, 94, 90})"
    and enough: "3 \<le> count"
  shows "findRecentImages net printer 95 count 3 =
           Inr ([\<lparr>minute = 94, url = getImageUrl printer 94\<rparr>,
                 \<lparr>minute = 95, url = getImageUrl printer 95\<rparr>],
                map (getImageUrl printer) [95, 94, 93, 92, 91])
         \<and> getImageUrl printer 90 \<notin> set (map (getImageUrl printer) [95, 94, 93, 92, 91])"
proof -
  have "net (getImageUrl printer 95) = ImageOk" "net (getImageUrl printer 94) = ImageOk"
    "net (getImageUrl printer 93) \<noteq> ImageOk" "net (getImageUrl printer 92) \<noteq> ImageOk"
    "net (getImageUrl printer 91) \<noteq> ImageOk"
    using pattern by simp_all
  then show ?thesis
    using enough by (simp add: findRecentImages_def scan_loop_unfold getImageUrl_inj)
qed

theorem findRecentImages_gap_example_witness:
  "(\<forall>m. ((if getImageUrl H2c m \<in> getImageUrl H2c ` {95, 94, 90} then ImageOk else NotFound)
          = ImageOk) = (m \<in> {95, 94, 90})) \<and>
   (3 :: int) \<le> 60 \<and>
   findRecentImages (\<lambda>u. if u \<in> getImageUrl H2c ` {95, 94, 90} then ImageOk else NotFound)
       H2c 95 60 3 =
     Inr ([\<lparr>minute = 94, url = getImageUrl H2c 94\<rparr>, \<lparr>minute = 95, url = getImageUrl H2c 95\<rparr>],
          map (getImageUrl H2c) [95, 94, 93, 92, 91]) \<and>
   getImageUrl H2c 90 \<notin> set (map (getImageUrl H2c) [95, 94, 93, 92, 91])"
proof -
  let ?net = "\<lambda>u. if u \<in> getImageUrl H2c ` {95, 94, 90} then ImageOk else NotFound"
  have p: "\<forall>m. (?net (getImageUrl H2c m) = ImageOk) = (m \<in> {95, 94, 90})"
    by (auto simp: getImageUrl_inj)
  have c: "(3 :: int) \<le> 60"
    by simp
  show ?thesis
    using findRecentImages_gap_example [of ?net H2c 60, OF p c] p c by blast
qed

text \<open>
  Without the condition on the count the statement fails: the count ends the scan before
  the gap does. Asked for one frame on the same network, the scan probes 95 only and
  returns the frame of 95 alone; asked for two, it returns the frames of 94 and 95 after
  probing only these two ordinals, with no miss at all.
\<close>

theorem findRecentImages_gap_small_count_counterexample:
  "(\<forall>m. ((if getImageUrl H2c m \<in> getImageUrl H2c ` {95, 94, 90} then ImageOk else NotFound)
          = ImageOk) = (m \<in> {95, 94, 90})) \<and>
   findRecentImages (\<lambda>u. if u \<in> getImageUrl H2c ` {95, 94, 90} then ImageOk else NotFound)
       H2c 95 1 3 =
     Inr ([\<lparr>minute = 95, url = getImageUrl H2c 95\<rparr>], map (getImageUrl H2c) [95]) \<and>
   findRecentImages (\<lambda>u. if u \<in> getImageUrl H2c ` {95, 94, 90} then ImageOk else NotFound)
       H2c 95 1 3 \<noteq>
     Inr ([\<lparr>minute = 94, url = getImageUrl H2c 94\<rparr>, \<lparr>minute = 95, url = getImageUrl H2c 95\<rparr>],
          map (getImageUrl H2c) [95, 94, 93, 92, 91]) \<and>
   findRecentImages (\<lambda>u. if u \<in> getImageUrl H2c ` {95, 94, 90} then ImageOk else NotFound)
       H2c 95 2 3 =
     Inr ([\<lparr>minute = 94, url = getImageUrl H2c 94\<rparr>, \<lparr>minute = 95, url = getImageUrl H2c 95\<rparr>],
          map (getImageUrl H2c) [95, 94])"
proof -
  let ?net = "\<lambda>u. if u \<in> getImageUrl H2c ` {95, 94, 90} then ImageOk else NotFound"
  have p: "\<forall>m. (?net (getImageUrl H2c m) = ImageOk) = (m \<in> {95, 94, 90})"
    by (auto simp: getImageUrl_inj)
  have one: "findRecentImages ?net H2c 95 1 3 =
      Inr ([\<lparr>minute = 95, url = getImageUrl H2c 95\<rparr>], map (getImageUrl H2c) [95])"
    by (simp add: findRecentImages_def scan_loop_unfold getImageUrl_inj)
  have two: "findRecentImages ?net H2c 95 2 3 =
      Inr ([\<lparr>minute = 94, url = getImageUrl H2c 94\<rparr>, \<lparr>minute = 95, url = getImageUrl H2c 95\<rparr>],
           map (getImageUrl H2c) [95, 94])"
    by (simp add: findRecentImages_def scan_loop_unfold getImageUrl_inj)
  have "findRecentImages ?net H2c 95 1 3 \<noteq>
      Inr ([\<lparr>minute = 94, url = getImageUrl H2c 94\<rparr>, \<lparr>minute = 95, url = getImageUrl H2c 95\<rparr>],
           map (getImageUrl H2c) [95, 94, 93, 92, 91])"
    unfolding one by simp
  with p one two show ?thesis
    by blast
qed

subsection \<open>Bounds on frames and probes\<close>

lemma bound_step:
  fixes h g c n k :: int
  assumes "h < c" "0 \<le> g" "n \<le> h * g + k" "k \<le> g"
  shows "n \<le> c * g"
proof -
  have "h + 1 \<le> c" using assms(1) by simp
  then have "(h + 1) * g \<le> c * g" using assms(2) by (rule mult_right_mono)
  moreover have "(h + 1) * g = h * g + g" by (simp add: algebra_simps)
  ultimately show ?thesis using assms(3,4) by linarith
qed

lemma scan_loop_bounds:
  assumes start: "0 \<le> startMinute" and c: "1 \<le> count" and g: "1 \<le> maxGap"
  shows "\<exists>st'. scan_loop net printer count maxGap startMinute
            \<lparr>results = [], consecutiveMisses = 0, probed = []\<rparr> = Inr st' \<and>
         (int (length (results st')) \<le> count \<and>
          int (length (probed st')) \<le> count * maxGap \<and>
          (\<forall>u \<in> set (probed st'). \<exists>k. 0 \<le> k \<and> k \<le> startMinute \<and> u = getImageUrl printer k))"
proof -
  define I where "I = (\<lambda>m (st::scan_state).
      - 1 \<le> m \<and> m \<le> startMinute \<and> 0 \<le> consecutiveMisses st \<and> consecutiveMisses st < maxGap \<and>
      int (length (results st)) \<le> count \<and>
      (int (length (results st)) = count \<longrightarrow> consecutiveMisses st = 0) \<and>
      int (length (probed st)) \<le> int (length (results st)) * maxGap + consecutiveMisses st \<and>
      (\<forall>u \<in> set (probed st). \<exists>k. m < k \<and> k \<le> startMinute \<and> u = getImageUrl printer k))"
  define Q where "Q = (\<lambda>st::scan_state.
      int (length (results st)) \<le> count \<and>
      int (length (probed st)) \<le> count * maxGap \<and>
      (\<forall>u \<in> set (probed st). \<exists>k. 0 \<le> k \<and> k \<le> startMinute \<and> u = getImageUrl printer k))"
  have "\<exists>st'. scan_loop net printer count maxGap startMinute
            \<lparr>results = [], consecutiveMisses = 0, probed = []\<rparr> = Inr st' \<and> Q st'"
  proof (rule scan_loop_rule [where I = I])
    show "I startMinute \<lparr>results = [], consecutiveMisses = 0, probed = []\<rparr>"
      using start c g by (simp add: I_def)
  next
    fix m st
    assume inv: "I m st" and m: "0 \<le> m" and len: "int (length (results st)) < count"
    let ?u = "getImageUrl printer m"
    from inv have mis: "0 \<le> consecutiveMisses st" "consecutiveMisses st < maxGap"
      and pr: "int (length (probed st)) \<le> int (length (results st)) * maxGap + consecutiveMisses st"
      by (simp_all add: I_def)
    have old: "\<exists>k. m - 1 < k \<and> k \<le> startMinute \<and> u = getImageUrl printer k"
      if "u \<in> set (probed st)" for u
    proof -
      from inv that obtain k where "m < k" "k \<le> startMinute" "u = getImageUrl printer k"
        unfolding I_def by blast
      then show ?thesis by (intro exI [of _ k]) simp
    qed
    from inv have le: "m \<le> startMinute"
      by (simp add: I_def)
    have new: "\<exists>k. m - 1 < k \<and> k \<le> startMinute \<and> ?u = getImageUrl printer k"
      using le by (intro exI [of _ m]) simp
    have all: "\<forall>u \<in> set (probed st @ [?u]). \<exists>k. m - 1 < k \<and> k \<le> startMinute \<and> u = getImageUrl printer k"
      using old new by auto
    have all0: "\<forall>u \<in> set (probed st @ [?u]). \<exists>k. 0 \<le> k \<and> k \<le> startMinute \<and> u = getImageUrl printer k"
    proof
      fix u assume "u \<in> set (probed st @ [?u])"
      with all obtain k where "m - 1 < k" "k \<le> startMinute" "u = getImageUrl printer k" by blast
      with m show "\<exists>k. 0 \<le> k \<and> k \<le> startMinute \<and> u = getImageUrl printer k"
        by (intro exI [of _ k]) simp
    qed
    have "1 + int (length (probed st)) \<le> (1 + int (length (results st))) * maxGap"
      using pr mis by (simp add: algebra_simps)
    then show "I (m - 1) (st\<lparr>results := results st @ [\<lparr>minute = m, url = ?u\<rparr>],
                consecutiveMisses := 0, probed := probed st @ [?u]\<rparr>)"
      using m le len g all by (simp add: I_def)
    show "I (m - 1) (st\<lparr>consecutiveMisses := consecutiveMisses st + 1, probed := probed st @ [?u]\<rparr>)"
      if "consecutiveMisses st + 1 < maxGap"
      using that m le len mis pr all by (simp add: I_def)
    show "Q (st\<lparr>consecutiveMisses := consecutiveMisses st + 1, probed := probed st @ [?u]\<rparr>)"
      if "maxGap \<le> consecutiveMisses st + 1"
    proof -
      have "int (length (probed st)) + 1 \<le> count * maxGap"
        using len _ _ _ by (rule bound_step [where k = "consecutiveMisses st + 1"])
          (use g pr mis in simp_all)
      then show ?thesis using len all0 by (simp add: Q_def)
    qed
  next
    fix m st
    assume inv: "I m st" and ex: "\<not> (0 \<le> m \<and> int (length (results st)) < count)"
    from inv have mis: "0 \<le> consecutiveMisses st" "consecutiveMisses st < maxGap"
      and pr: "int (length (probed st)) \<le> int (length (results st)) * maxGap + consecutiveMisses st"
      and m: "- 1 \<le> m" and len: "int (length (results st)) \<le> count"
      and full: "int (length (results st)) = count \<longrightarrow> consecutiveMisses st = 0"
      by (simp_all add: I_def)
    have all0: "\<forall>u \<in> set (probed st). \<exists>k. 0 \<le> k \<and> k \<le> startMinute \<and> u = getImageUrl printer k"
    proof
      fix u assume "u \<in> set (probed st)"
      with inv obtain k where "m < k" "k \<le> startMinute" "u = getImageUrl printer k"
        unfolding I_def by blast
      with m show "\<exists>k. 0 \<le> k \<and> k \<le> startMinute \<and> u = getImageUrl printer k"
        by (intro exI [of _ k]) simp
    qed
    have "int (length (probed st)) \<le> count * maxGap"
    proof (cases "int (length (results st)) = count")
      case True
      with full pr show ?thesis by simp
    next
      case False
      with len have "int (length (results st)) < count" by simp
      then show ?thesis using _ pr _ by (rule bound_step) (use g mis in simp_all)
    qed
    then show "Q st" using len all0 by (simp add: Q_def)
  qed
  then show ?thesis by (simp add: Q_def)
qed

text \<open>
  C2, as the code has it: for a start ordinal of at least 0, \<open>count\<close> at least 1 and
  \<open>maxGap\<close> at least 1, and every pattern of hits and misses, the scan returns at most
  \<open>count\<close> frames and probes at most \<open>count * maxGap\<close> candidate ordinals, each of them
  between 0 and the start ordinal. (A hit resets the miss counter, so up to \<open>maxGap - 1\<close>
  misses can precede every hit.)
\<close>

theorem findRecentImages_bounds:
  assumes "0 \<le> startMinute" and "1 \<le> count" and "1 \<le> maxGap"
  shows "\<exists>found probes.
           findRecentImages net printer startMinute count maxGap = Inr (found, probes) \<and>
           int (length found) \<le> count \<and>
           int (length probes) \<le> count * maxGap \<and>
           (\<forall>u \<in> set probes. \<exists>k. 0 \<le> k \<and> k \<le> startMinute \<and> u = getImageUrl printer k)"
proof -
  obtain st' where "scan_loop net printer count maxGap startMinute
          \<lparr>results = [], consecutiveMisses = 0, probed = []\<rparr> = Inr st'"
    and "int (length (results st')) \<le> count"
    and "int (length (probed st')) \<le> count * maxGap"
    and "\<forall>u \<in> set (probed st'). \<exists>k. 0 \<le> k \<and> k \<le> startMinute \<and> u = getImageUrl printer k"
    using scan_loop_bounds [OF assms, of net printer] by blast
  then show ?thesis
    by (simp add: findRecentImages_def)
qed

theorem findRecentImages_bounds_witness:
  "(0 :: int) \<le> 5 \<and> (1 :: int) \<le> 3 \<and> (1 :: int) \<le> 2 \<and>
   (\<exists>found probes.
      findRecentImages (\<lambda>u. if u \<in> getImageUrl H2c ` {4, 2, 0} then ImageOk else NotFound)
          H2c 5 3 2 = Inr (found, probes) \<and>
      int (length found) \<le> 3 \<and>
      int (length probes) \<le> 3 * 2 \<and>
      (\<forall>u \<in> set probes. \<exists>k. 0 \<le> k \<and> k \<le> 5 \<and> u = getImageUrl H2c k))"
  using findRecentImages_bounds
    [of 5 3 2 "\<lambda>u. if u \<in> getImageUrl H2c ` {4, 2, 0} then ImageOk else NotFound" H2c]
  by simp

text \<open>
  The bound \<open>maxCount + maxGap\<close> on the probes fails: with hits at the ordinals 4, 2 and
  0 only, the scan from 5 for 3 frames with \<open>maxGap = 2\<close> probes six ordinals.
\<close>

theorem findRecentImages_probe_sum_counterexample:
  "(0 :: int) \<le> 5 \<and> (1 :: int) \<le> 3 \<and> (1 :: int) \<le> 2 \<and>
   findRecentImages (\<lambda>u. if u \<in> getImageUrl H2c ` {4, 2, 0} then ImageOk else NotFound)
       H2c 5 3 2 =
     Inr ([\<lparr>minute = 0, url = getImageUrl H2c 0\<rparr>, \<lparr>minute = 2, url = getImageUrl H2c 2\<rparr>,
           \<lparr>minute = 4, url = getImageUrl H2c 4\<rparr>],
          map (getImageUrl H2c) [5, 4, 3, 2, 1, 0]) \<and>
   \<not> int (length (map (getImageUrl H2c) [5, 4, 3, 2, 1, 0])) \<le> 3 + 2"
  by (simp add: findRecentImages_def scan_loop_unfold getImageUrl_inj)

subsection \<open>Order of the result, and probes that fail\<close>

lemma scan_loop_returns:
  "\<exists>st'. scan_loop net printer count maxGap m st = Inr st'"
proof -
  have "\<exists>st'. scan_loop net printer count maxGap m st = Inr st' \<and> True"
    by (rule scan_loop_rule [where I = "\<lambda>m st. True"]) simp_all
  then show ?thesis by simp
qed

lemma scan_loop_descending:
  assumes "sorted_wrt (>) (map minute (results st))"
    and "\<forall>f \<in> set (results st). m < minute f"
  shows "\<exists>st'. scan_loop net printer count maxGap m st = Inr st' \<and>
           sorted_wrt (>) (map minute (results st'))"
proof (rule scan_loop_rule [where I = "\<lambda>m st. sorted_wrt (>) (map minute (results st)) \<and>
      (\<forall>f \<in> set (results st). m < minute f)"])
  show "sorted_wrt (>) (map minute (results st)) \<and> (\<forall>f \<in> set (results st). m < minute f)"
    using assms by simp
qed (auto simp: sorted_wrt_append)

lemma findRecentImages_ascending:
  "\<exists>frames probes. findRecentImages net printer startMinute count maxGap = Inr (frames, probes) \<and>
      sorted_wrt (<) (map minute frames)"
proof -
  obtain st' where st': "scan_loop net printer count maxGap startMinute
        \<lparr>results = [], consecutiveMisses = 0, probed = []\<rparr> = Inr st'"
    and d: "sorted_wrt (>) (map minute (results st'))"
    using scan_loop_descending [of "\<lparr>results = [], consecutiveMisses = 0, probed = []\<rparr>"
        startMinute net printer count maxGap]
    by auto
  have "sorted_wrt (<) (rev (map minute (results st')))"
    using d by (simp add: sorted_wrt_rev)
  then show ?thesis
    using st' by (simp add: findRecentImages_def rev_map)
qed

lemma scan_loop_cong_network:
  assumes "\<And>u. (net u = ImageOk) = (net' u = ImageOk)"
  shows "scan_loop net printer count maxGap m st = scan_loop net' printer count maxGap m st"
proof (induction "nat (m + 1)" arbitrary: m st rule: less_induct)
  case less
  show ?case
  proof (cases "0 \<le> m \<and> int (length (results st)) < count")
    case False
    then show ?thesis
      by (simp only: scan_loop_unfold [of _ _ _ _ m st] if_False)
  next
    case True
    then have "nat (m - 1 + 1) < nat (m + 1)" by simp
    then have "scan_loop net printer count maxGap (m - 1) st' =
        scan_loop net' printer count maxGap (m - 1) st'" for st'
      by (rule less.hyps)
    then show ?thesis
      using assms [of "getImageUrl printer m"]
      by (simp add: scan_loop_unfold [of _ _ _ _ m st])
  qed
qed

text \<open>
  C6: whatever the probes do, the scan returns a result and throws nothing; and it cannot
  tell a probe that failed (network failure, error status, undecodable body) from one
  that found nothing, since replacing every outcome other than success by "not found"
  changes neither the frames returned nor the probes made. A failed probe therefore
  counts as a miss towards \<open>maxGap\<close>.
\<close>

theorem findRecentImages_never_throws:
  "(\<exists>found probes. findRecentImages net printer startMinute count maxGap = Inr (found, probes)) \<and>
   findRecentImages net printer startMinute count maxGap =
     findRecentImages (\<lambda>u. if net u = ImageOk then ImageOk else NotFound)
       printer startMinute count maxGap"
proof
  obtain st' where "scan_loop net printer count maxGap startMinute
      \<lparr>results = [], consecutiveMisses = 0, probed = []\<rparr> = Inr st'"
    using scan_loop_returns by blast
  then show "\<exists>found probes.
      findRecentImages net printer startMinute count maxGap = Inr (found, probes)"
    by (simp add: findRecentImages_def)
  have "scan_loop net printer count maxGap startMinute st =
      scan_loop (\<lambda>u. if net u = ImageOk then ImageOk else NotFound)
        printer count maxGap startMinute st" for st
    by (rule scan_loop_cong_network) simp
  then show "findRecentImages net printer startMinute count maxGap =
      findRecentImages (\<lambda>u. if net u = ImageOk then ImageOk else NotFound)
        printer startMinute count maxGap"
    by (simp add: findRecentImages_def)
qed

theorem findRecentImages_never_throws_witness:
  "findRecentImages (\<lambda>u. NetworkFailure) H2c 5 60 3 = Inr ([], map (getImageUrl H2c) [5, 4, 3]) \<and>
   findRecentImages (\<lambda>u. NetworkFailure) H2c 5 60 3 = findRecentImages (\<lambda>u. NotFound) H2c 5 60 3"
  using findRecentImages_never_throws [of "\<lambda>u. NetworkFailure" H2c 5 60 3]
  by (simp add: findRecentImages_def scan_loop_unfold)

section \<open>Properties of the frame store\<close>

lemma js_insort_minute:
  "js_insort (\<lambda>a b. minute a - minute b) x ys = insort_key minute x ys"
  by (induction ys) simp_all

lemma js_sort_minute: "js_sort (\<lambda>a b. minute a - minute b) xs = sort_key minute xs"
  by (induction xs) (simp_all add: js_sort_def js_insort_minute sort_key_def)

lemma setFrames_updater_cases:
  "setFrames_updater False images prev =
     (if prev = [] then Fresh images
      else if \<forall>f \<in> set images. minute f \<in> minute ` set prev then SamePrev
      else Fresh (sort_key minute (prev @ filter (\<lambda>f. minute f \<notin> minute ` set prev) images)))"
  by (auto simp: setFrames_updater_def Let_def js_sort_minute filter_empty_conv)

lemma setFrames_updater_initial: "setFrames_updater True images prev = Fresh images"
  by (simp add: setFrames_updater_def)

lemma strictly_ascending_sort_key:
  assumes "distinct (map minute xs)"
  shows "sorted_wrt (<) (map minute (sort_key minute xs))"
  by (metis assms distinct_map distinct_sort set_sort sorted_sort_key strict_sorted_iff)

lemma distinct_minutes_merge:
  assumes "distinct (map minute prev)" and "distinct (map minute images)"
  shows "distinct (map minute (prev @ filter (\<lambda>f. minute f \<notin> minute ` set prev) images))"
proof -
  have "distinct (map minute (filter (\<lambda>f. minute f \<notin> minute ` set prev) images))"
    using assms(2) by (rule distinct_map_filter)
  moreover have "minute ` set prev \<inter> minute ` set (filter (\<lambda>f. minute f \<notin> minute ` set prev) images) = {}"
  proof -
    have "x \<notin> minute ` set prev"
      if "x \<in> minute ` set (filter (\<lambda>f. minute f \<notin> minute ` set prev) images)" for x
      using that by (auto simp del: image_set)
    then show ?thesis by blast
  qed
  ultimately show ?thesis using assms(1) by simp
qed

lemma apply_update_ascending:
  assumes p: "sorted_wrt (<) (map minute prev)" and i: "sorted_wrt (<) (map minute images)"
  shows "sorted_wrt (<) (map minute (apply_update prev (setFrames_updater isInitial images prev)))"
proof (cases isInitial)
  case True
  then show ?thesis using i by (simp add: setFrames_updater_initial apply_update_def)
next
  case False
  have "distinct (map minute prev)" "distinct (map minute images)"
    using p i by (simp_all add: strict_sorted_iff)
  then have "sorted_wrt (<) (map minute
      (sort_key minute (prev @ filter (\<lambda>f. minute f \<notin> minute ` set prev) images)))"
    by (intro strictly_ascending_sort_key distinct_minutes_merge)
  then show ?thesis
    using False p i by (simp add: setFrames_updater_cases apply_update_def)
qed

text \<open>
  C5, as the code has it. A refresh that merges into a non-empty store a discovery result
  whose ordinals are all present hands back the store itself, so nothing is signalled; if
  some ordinal is new, the store becomes the ascending sort of the old sequence followed
  by exactly the discovered frames with new ordinals. For an empty store the refresh does
  not merge: the store is replaced by the discovery result, a newly built array, so an
  update is signalled even if that result is empty. Its value is still the ascending sort
  of old sequence and additions, the discovery result being ascending.
\<close>

theorem setFrames_updater_merge:
  "setFrames_updater False images prev =
     (if prev = [] then Fresh images
      else if \<forall>f \<in> set images. minute f \<in> minute ` set prev then SamePrev
      else Fresh (sort_key minute (prev @ filter (\<lambda>f. minute f \<notin> minute ` set prev) images))) \<and>
   (prev = [] \<and> sorted (map minute images) \<longrightarrow>
      images = sort_key minute (prev @ filter (\<lambda>f. minute f \<notin> minute ` set prev) images))"
  using setFrames_updater_cases [of images prev]
  by (simp add: sort_key_id_if_sorted)

theorem setFrames_updater_merge_witness:
  "setFrames_updater False
     [\<lparr>minute = 11, url = ''c''\<rparr>, \<lparr>minute = 12, url = ''b''\<rparr>, \<lparr>minute = 13, url = ''d''\<rparr>]
     [\<lparr>minute = 10, url = ''a''\<rparr>, \<lparr>minute = 12, url = ''b''\<rparr>] =
   Fresh [\<lparr>minute = 10, url = ''a''\<rparr>, \<lparr>minute = 11, url = ''c''\<rparr>,
          \<lparr>minute = 12, url = ''b''\<rparr>, \<lparr>minute = 13, url = ''d''\<rparr>] \<and>
   setFrames_updater False
     [\<lparr>minute = 12, url = ''b''\<rparr>]
     [\<lparr>minute = 10, url = ''a''\<rparr>, \<lparr>minute = 12, url = ''b''\<rparr>] = SamePrev \<and>
   setFrames_updater False [\<lparr>minute = 11, url = ''c''\<rparr>] [] = Fresh [\<lparr>minute = 11, url = ''c''\<rparr>]"
  using
    setFrames_updater_merge
      [of "[\<lparr>minute = 11, url = ''c''\<rparr>, \<lparr>minute = 12, url = ''b''\<rparr>, \<lparr>minute = 13, url = ''d''\<rparr>]"
          "[\<lparr>minute = 10, url = ''a''\<rparr>, \<lparr>minute = 12, url = ''b''\<rparr>]"]
    setFrames_updater_merge
      [of "[\<lparr>minute = 12, url = ''b''\<rparr>]"
          "[\<lparr>minute = 10, url = ''a''\<rparr>, \<lparr>minute = 12, url = ''b''\<rparr>]"]
    setFrames_updater_merge [of "[\<lparr>minute = 11, url = ''c''\<rparr>]" "[]"]
  by simp

text \<open>
  The empty discovery result has all its ordinals in the empty store, and yet the refresh
  does not hand back the store: it replaces it by the new empty array.
\<close>

theorem setFrames_updater_empty_counterexample:
  "set (map minute ([] :: FrameData list)) \<subseteq> set (map minute ([] :: FrameData list)) \<and>
   setFrames_updater False [] [] = Fresh [] \<and>
   setFrames_updater False [] [] \<noteq> SamePrev"
  by (simp add: setFrames_updater_def)


section \<open>Properties of the views\<close>

subsection \<open>Two scans used as examples\<close>

lemma scan_from_0:
  "findRecentImages (\<lambda>u. ImageOk) H2c 0 60 10 =
     Inr ([\<lparr>minute = 0, url = getImageUrl H2c 0\<rparr>], map (getImageUrl H2c) [0])"
  by (simp add: findRecentImages_def scan_loop_unfold)

lemma scan_from_1:
  "findRecentImages (\<lambda>u. ImageOk) H2c 1 60 10 =
     Inr ([\<lparr>minute = 0, url = getImageUrl H2c 0\<rparr>, \<lparr>minute = 1, url = getImageUrl H2c 1\<rparr>],
          map (getImageUrl H2c) [1, 0])"
  by (simp add: findRecentImages_def scan_loop_unfold)

lemma scan_from_2:
  "findRecentImages (\<lambda>u. ImageOk) H2c 2 60 10 =
     Inr ([\<lparr>minute = 0, url = getImageUrl H2c 0\<rparr>, \<lparr>minute = 1, url = getImageUrl H2c 1\<rparr>,
           \<lparr>minute = 2, url = getImageUrl H2c 2\<rparr>],
          map (getImageUrl H2c) [2, 1, 0])"
  by (simp add: findRecentImages_def scan_loop_unfold)

subsection \<open>The stores stay strictly ascending\<close>

lemma loadImages_resume_ascending:
  assumes "sorted_wrt (<) (map minute (view.frames v))"
  shows "sorted_wrt (<) (map minute (view.frames
     (loadImages_resume isInitial (findRecentImages net printer startMinute count maxGap) v)))"
proof -
  obtain found probes where r: "findRecentImages net printer startMinute count maxGap = Inr (found, probes)"
    and a: "sorted_wrt (<) (map minute found)"
    using findRecentImages_ascending [of net printer startMinute count maxGap] by blast
  show ?thesis
    using apply_update_ascending [OF assms a, of isInitial]
    by (cases isInitial) (simp_all add: loadImages_resume_def r Let_def)
qed

lemma handle_ascending:
  assumes "sorted_wrt (<) (map minute (view.frames v))"
  shows "sorted_wrt (<) (map minute (view.frames (handle printer e v)))"
proof (cases e)
  case (Resolve i net)
  show ?thesis
  proof (cases "i < length (view.inflight v)")
    case True
    obtain isInitial currentMinute where "view.inflight v ! i = (isInitial, currentMinute)"
      by (cases "view.inflight v ! i")
    with True Resolve assms show ?thesis
      by (simp add: loadImages_resume_ascending)
  next
    case False
    with Resolve assms show ?thesis by simp
  qed
qed (use assms in \<open>simp_all add: startFeed_def stopFeed_def loadImages_call_def Let_def\<close>)

lemma run_ascending:
  "sorted_wrt (<) (map minute (view.frames v)) \<Longrightarrow>
   sorted_wrt (<) (map minute (view.frames (run printer es v)))"
proof (induction es arbitrary: v)
  case Nil
  then show ?case by (simp add: run_def)
next
  case (Cons e es)
  have "sorted_wrt (<) (map minute (view.frames (step printer e v)))"
    using handle_ascending [OF Cons.prems] by (simp add: step_def run_effects_def)
  from Cons.IH [OF this] show ?case by (simp add: run_def)
qed

lemma loop_loadImages_resume_ascending:
  assumes "sorted_wrt (<) (map minute (frames v))"
  shows "sorted_wrt (<) (map minute (frames
     (loop_loadImages_resume isInitial (findRecentImages net printer startMinute count maxGap) v)))"
proof -
  obtain found probes where r: "findRecentImages net printer startMinute count maxGap = Inr (found, probes)"
    and a: "sorted_wrt (<) (map minute found)"
    using findRecentImages_ascending [of net printer startMinute count maxGap] by blast
  show ?thesis
    using apply_update_ascending [OF assms a, of isInitial]
    by (cases isInitial) (simp_all add: loop_loadImages_resume_def r Let_def)
qed

lemma loop_handle_ascending:
  assumes "sorted_wrt (<) (map minute (frames v))"
  shows "sorted_wrt (<) (map minute (frames (loop_handle printer e v)))"
proof (cases e)
  case (LoopResolve i net)
  show ?thesis
  proof (cases "i < length (inflight v)")
    case True
    obtain isInitial currentMinute where "inflight v ! i = (isInitial, currentMinute)"
      by (cases "inflight v ! i")
    with True LoopResolve assms show ?thesis
      by (simp add: loop_loadImages_resume_ascending)
  next
    case False
    with LoopResolve assms show ?thesis by simp
  qed
qed (use assms in \<open>simp_all add: loop_loadImages_call_def Let_def split: option.splits\<close>)

lemma loop_run_ascending:
  "sorted_wrt (<) (map minute (frames v)) \<Longrightarrow>
   sorted_wrt (<) (map minute (loop_view.frames (loop_run printer es v)))"
proof (induction es arbitrary: v)
  case Nil
  then show ?case by (simp add: loop_run_def)
next
  case (Cons e es)
  have "sorted_wrt (<) (map minute (frames (loop_step printer e v)))"
    using loop_handle_ascending [OF Cons.prems] by (simp add: loop_step_def loop_run_effects_def)
  from Cons.IH [OF this] show ?case by (simp add: loop_run_def)
qed

text \<open>
  C3: every sequence that a discovery scan returns is strictly ascending by ordinal and
  has no ordinal twice; and so is the frame store of either view after any sequence of
  events, that is, after the initial load and any number of refreshes merged into it.
\<close>

theorem frame_sequences_strictly_ascending:
  "(\<exists>found probes.
      findRecentImages net printer startMinute count maxGap = Inr (found, probes) \<and>
      sorted_wrt (<) (map minute found) \<and> distinct (map minute found)) \<and>
   sorted_wrt (<) (map minute (view.frames (run printer es initial_view))) \<and>
   distinct (map minute (view.frames (run printer es initial_view))) \<and>
   sorted_wrt (<) (map minute (loop_view.frames (loop_run printer les initial_loop_view))) \<and>
   distinct (map minute (loop_view.frames (loop_run printer les initial_loop_view)))"
proof -
  have "sorted_wrt (<) (map minute (view.frames (run printer es initial_view)))"
    by (rule run_ascending) (simp add: initial_view_def)
  moreover have "sorted_wrt (<) (map minute (loop_view.frames (loop_run printer les initial_loop_view)))"
    by (rule loop_run_ascending) (simp add: initial_loop_view_def)
  ultimately show ?thesis
    using findRecentImages_ascending [of net printer startMinute count maxGap]
    by (auto simp: strict_sorted_iff)
qed

theorem frame_sequences_strictly_ascending_witness:
  "(\<exists>found probes.
      findRecentImages (\<lambda>u. ImageOk) H2c 2 60 10 = Inr (found, probes) \<and>
      sorted_wrt (<) (map minute found) \<and> distinct (map minute found)) \<and>
   map minute (view.frames (run H2c
      [StartFeed 1, Resolve 0 (\<lambda>u. ImageOk), RefreshTick 2, Resolve 0 (\<lambda>u. ImageOk)]
      initial_view)) = [0, 1, 2] \<and>
   sorted_wrt (<) (map minute (view.frames (run H2c
      [StartFeed 1, Resolve 0 (\<lambda>u. ImageOk), RefreshTick 2, Resolve 0 (\<lambda>u. ImageOk)]
      initial_view))) \<and>
   sorted_wrt (<) (map minute (loop_view.frames (loop_run H2c
      [AutoStart 1, LoopResolve 0 (\<lambda>u. ImageOk)] initial_loop_view)))"
proof -
  have "map minute (view.frames (run H2c
      [StartFeed 1, Resolve 0 (\<lambda>u. ImageOk), RefreshTick 2, Resolve 0 (\<lambda>u. ImageOk)]
      initial_view)) = [0, 1, 2]"
    by (simp add: run_def step_def run_effects_def initial_view_def startFeed_def
        loadImages_call_def loadImages_resume_def Let_def scan_from_1 scan_from_2
        setFrames_updater_initial setFrames_updater_cases apply_update_def)
  then show ?thesis
    using frame_sequences_strictly_ascending
      [of "\<lambda>u. ImageOk" H2c 2 60 10
          "[StartFeed 1, Resolve 0 (\<lambda>u. ImageOk), RefreshTick 2, Resolve 0 (\<lambda>u. ImageOk)]"
          "[AutoStart 1, LoopResolve 0 (\<lambda>u. ImageOk)]"]
    by blast
qed

subsection \<open>Stopping while a discovery is in flight\<close>

lemma stopFeed_clears_timers:
  "\<not> view.live (step printer StopFeed v) \<and> \<not> playing (step printer StopFeed v) \<and>
   \<not> view.refreshTimer (step printer StopFeed v) \<and> \<not> advanceTimer (step printer StopFeed v)"
  by (simp add: step_def run_effects_def stopFeed_def)

lemma loadImages_resume_flags:
  "view.live (loadImages_resume isInitial awaited v) = view.live v \<and>
   playing (loadImages_resume isInitial awaited v) = playing v"
  by (simp add: loadImages_resume_def Let_def split: sum.splits prod.splits)

lemma resolve_keeps_timers_off:
  assumes "\<not> view.live v" and "\<not> playing v"
  shows "\<not> view.live (step printer (Resolve i net) v) \<and>
         \<not> playing (step printer (Resolve i net) v) \<and>
         \<not> view.refreshTimer (step printer (Resolve i net) v) \<and>
         \<not> advanceTimer (step printer (Resolve i net) v)"
proof -
  have "view.live (handle printer (Resolve i net) v) = view.live v \<and>
      playing (handle printer (Resolve i net) v) = playing v"
    by (simp add: loadImages_resume_flags split: prod.splits)
  with assms show ?thesis
    by (simp add: step_def run_effects_def)
qed

text \<open>
  C4 does not hold for the start/stop player. The feed is started at minute 1 and loads
  the frames 0 and 1; at minute 2 the refresh interval fires and its call of
  \<^verbatim>\<open>loadImages(false)\<close> waits for the scan; the user presses Stop; then the scan
  resolves with the frames 0, 1 and 2. \<^verbatim>\<open>loadImages\<close> has no cancellation flag, so the
  continuation merges frame 2 into the store of the stopped view. No interval is running
  after Stop, and none is started by the late result.
\<close>

theorem stopFeed_then_resolve_changes_store:
  "(let stopped = run H2c [StartFeed 1, Resolve 0 (\<lambda>u. ImageOk), RefreshTick 2, StopFeed]
                    initial_view;
        resolved = step H2c (Resolve 0 (\<lambda>u. ImageOk)) stopped
    in view.inflight stopped = [(False, 2)] \<and>
       \<not> view.live stopped \<and>
       map minute (view.frames stopped) = [0, 1] \<and>
       map minute (view.frames resolved) = [0, 1, 2] \<and>
       view.frames resolved \<noteq> view.frames stopped \<and>
       \<not> view.refreshTimer resolved \<and> \<not> advanceTimer resolved)"
  by (simp add: run_def step_def run_effects_def initial_view_def startFeed_def stopFeed_def
      loadImages_call_def loadImages_resume_def Let_def scan_from_1 scan_from_2
      setFrames_updater_initial setFrames_updater_cases apply_update_def)

subsection \<open>The index of the live loop\<close>

lemma length_loopFrames: "length (loopFrames v) = min LOOP_COUNT (length (frames v))"
  by (simp add: loopFrames_def)

lemma js_rem_nonneg: "0 \<le> a \<Longrightarrow> js_rem a b = a mod \<bar>b\<bar>"
  by (simp add: js_rem_def)

lemma loop_handle_index: "0 \<le> loopIndex v \<Longrightarrow> 0 \<le> loopIndex (loop_handle printer e v)"
proof (cases e)
  case (LoopResolve i net)
  assume a: "0 \<le> loopIndex v"
  show ?thesis
  proof (cases "i < length (inflight v)")
    case True
    obtain isInitial currentMinute where "inflight v ! i = (isInitial, currentMinute)"
      by (cases "inflight v ! i")
    with True LoopResolve a show ?thesis
      by (simp add: loop_loadImages_resume_def Let_def split: sum.splits prod.splits)
  next
    case False
    with LoopResolve a show ?thesis by simp
  qed
next
  case LoopTick
  assume a: "0 \<le> loopIndex v"
  show ?thesis
  proof (cases "loopTimer v")
    case None
    with LoopTick a show ?thesis by simp
  next
    case (Some n)
    have "0 \<le> js_rem (loopIndex v + 1) n"
      using a by (cases "n = 0") (simp_all add: js_rem_nonneg)
    with LoopTick Some show ?thesis by simp
  qed
qed (simp_all add: loop_loadImages_call_def Let_def)

lemma loop_run_index:
  "0 \<le> loopIndex v \<Longrightarrow> 0 \<le> loopIndex (loop_run printer es v)"
proof (induction es arbitrary: v)
  case Nil
  then show ?case by (simp add: loop_run_def)
next
  case (Cons e es)
  have "0 \<le> loopIndex (loop_step printer e v)"
    using loop_handle_index [OF Cons.prems] by (simp add: loop_step_def loop_run_effects_def)
  from Cons.IH [OF this] show ?case by (simp add: loop_run_def)
qed

text \<open>
  C7: in every state that the live-loop view reaches, if the store holds a frame then
  the index of the displayed frame lies between 0 and \<open>min LOOP_COUNT (length frames) - 1\<close>,
  is the loop position reduced modulo the length of the loop window as it is now, and
  selects a frame of the window; if the store is empty, no frame is displayed.
\<close>

theorem safeIndex_in_loop_window:
  assumes "v = loop_run printer es initial_loop_view"
  shows "(frames v \<noteq> [] \<longrightarrow>
           0 \<le> safeIndex v \<and>
           safeIndex v \<le> int (min LOOP_COUNT (length (frames v))) - 1 \<and>
           safeIndex v = loopIndex v mod int (min LOOP_COUNT (length (frames v))) \<and>
           currentFrame v = Some (loopFrames v ! nat (safeIndex v))) \<and>
         (frames v = [] \<longrightarrow> currentFrame v = None)"
proof -
  have idx: "0 \<le> loopIndex v"
    unfolding assms by (rule loop_run_index) (simp add: initial_loop_view_def)
  let ?n = "int (min LOOP_COUNT (length (frames v)))"
  have e: "frames v = [] \<longrightarrow> currentFrame v = None"
    by (auto simp: currentFrame_def length_loopFrames)
  have "0 \<le> safeIndex v \<and> safeIndex v \<le> ?n - 1 \<and> safeIndex v = loopIndex v mod ?n \<and>
      currentFrame v = Some (loopFrames v ! nat (safeIndex v))" if ne: "frames v \<noteq> []"
  proof -
    have pos: "0 < ?n" using ne by (simp add: LOOP_COUNT_def)
    have s: "safeIndex v = loopIndex v mod ?n"
      using pos idx by (simp add: safeIndex_def length_loopFrames js_rem_nonneg)
    have "0 \<le> loopIndex v mod ?n" "loopIndex v mod ?n < ?n"
      using pos by simp_all
    then show ?thesis
      using s by (simp add: currentFrame_def length_loopFrames)
  qed
  with e show ?thesis by blast
qed

text \<open>
  The loop has advanced to position 2 of a window of three frames when the store is
  replaced by a single frame: the displayed index is \<open>2 mod 1 = 0\<close>.
\<close>

theorem safeIndex_in_loop_window_witness:
  "(let v = loop_run H2c
              [AutoStart 2, LoopResolve 0 (\<lambda>u. ImageOk), LoopTick, LoopTick,
               AutoStart 0, LoopResolve 0 (\<lambda>u. ImageOk)]
              initial_loop_view
    in map minute (frames v) = [0] \<and> loopIndex v = 2 \<and> safeIndex v = 0 \<and>
       0 \<le> safeIndex v \<and>
       safeIndex v \<le> int (min LOOP_COUNT (length (frames v))) - 1 \<and>
       safeIndex v = loopIndex v mod int (min LOOP_COUNT (length (frames v))) \<and>
       currentFrame v = Some (loopFrames v ! nat (safeIndex v)))"
proof -
  let ?es = "[AutoStart 2, LoopResolve 0 (\<lambda>u. ImageOk), LoopTick, LoopTick,
              AutoStart 0, LoopResolve 0 (\<lambda>u. ImageOk)]"
  have v: "loop_run H2c ?es initial_loop_view =
      \<lparr>frames = [\<lparr>minute = 0, url = getImageUrl H2c 0\<rparr>], loopIndex = 2, loading = False,
       live = True, refreshTimer = True, loopTimer = None, inflight = []\<rparr>"
    by (simp add: loop_run_def loop_step_def loop_run_effects_def initial_loop_view_def
        loop_loadImages_call_def loop_loadImages_resume_def Let_def scan_from_0 scan_from_2
        setFrames_updater_initial apply_update_def loopFrames_def LOOP_COUNT_def js_rem_def)
  show ?thesis
    using safeIndex_in_loop_window [OF refl, of H2c ?es]
    by (simp add: v Let_def safeIndex_def loopFrames_def LOOP_COUNT_def js_rem_def)
qed


section \<open>Properties of the listing-based discovery\<close>

lemma match_name_examples:
  "match_name ''h2c-3.jpg'' = Some (''h2c'', ''3'')"
  "match_name ''h2c-1.jpg'' = Some (''h2c'', ''1'')"
  "match_name ''h2d-2.jpg'' = Some (''h2d'', ''2'')"
  by (simp_all add: match_name_def Let_def is_digit_def jpg_extension_def line_terminator_def)

lemma parseInt_examples: "parseInt ''3'' = 3" "parseInt ''1'' = 1" "parseInt ''2'' = 2"
  by (simp_all add: parseInt_def digit_value_def)

lemma add_child_no_url:
  "content_downloadUrl c = None \<Longrightarrow> graph_downloadUrl c = None \<Longrightarrow> add_child m c = m"
  by (simp add: add_child_def downloadUrl_def or_else_def split: option.splits)

text \<open>
  Once the cleanup of the effect has set the flag, the result of the listing is dropped:
  the state of the hook stays as it is.
\<close>

lemma fetchImages_cancelled: "fetchImages localeCompare resp True st = st"
  by (simp add: fetchImages_def split: sum.splits)



text \<open>
  C9: an entry that carries neither download URL leaves no trace, whatever its name and
  wherever it stands in the listing: the groups, and the state that the hook reaches, are
  those of the listing without the entry, and the error of the hook is not set by it.
\<close>

theorem fetchImages_skips_entry_without_url:
  assumes "content_downloadUrl c = None" and "graph_downloadUrl c = None"
  shows "group_children (xs @ c # ys) = group_children (xs @ ys) \<and>
         fetchImages localeCompare (Response True status (JsonData (Some (xs @ c # ys))))
             cancelled st =
           fetchImages localeCompare (Response True status (JsonData (Some (xs @ ys))))
             cancelled st \<and>
         error (fetchImages localeCompare (Response True status (JsonData (Some (xs @ c # ys))))
             cancelled st) = error st"
proof -
  have "group_children (xs @ c # ys) = group_children (xs @ ys)"
    using assms by (simp add: group_children_def add_child_no_url)
  then show ?thesis
    by (simp add: fetchImages_def fetch_children_def)
qed

theorem fetchImages_skips_entry_without_url_witness:
  "match_name ''h2c-2.jpg'' = Some (''h2c'', ''2'') \<and>
   fetchImages (\<lambda>a b. 0)
     (Response True 200 (JsonData (Some
        [\<lparr>OneDriveChild.name = ''h2c-3.jpg'', graph_downloadUrl = None,
          content_downloadUrl = Some ''u3''\<rparr>,
         \<lparr>OneDriveChild.name = ''h2c-2.jpg'', graph_downloadUrl = None,
          content_downloadUrl = None\<rparr>,
         \<lparr>OneDriveChild.name = ''h2c-1.jpg'', graph_downloadUrl = None,
          content_downloadUrl = Some ''u1''\<rparr>])))
     False initial_hook_state =
   \<lparr>printers = [\<lparr>name = ''h2c'', frames = [''u1'', ''u3'']\<rparr>], loading = False, error = None\<rparr>"
proof -
  have "fetchImages (\<lambda>a b. 0)
     (Response True 200 (JsonData (Some
        [\<lparr>OneDriveChild.name = ''h2c-3.jpg'', graph_downloadUrl = None,
          content_downloadUrl = Some ''u3''\<rparr>,
         \<lparr>OneDriveChild.name = ''h2c-1.jpg'', graph_downloadUrl = None,
          content_downloadUrl = Some ''u1''\<rparr>])))
     False initial_hook_state =
   \<lparr>printers = [\<lparr>name = ''h2c'', frames = [''u1'', ''u3'']\<rparr>], loading = False, error = None\<rparr>"
    by (simp add: group_children_def add_child_def match_name_examples parseInt_examples
        downloadUrl_def or_else_def fetchImages_def fetch_children_def build_result_def
        js_sort_def initial_hook_state_def)
  moreover have "match_name ''h2c-2.jpg'' = Some (''h2c'', ''2'')"
    by (simp add: match_name_def Let_def is_digit_def jpg_extension_def line_terminator_def)
  ultimately show ?thesis
    using fetchImages_skips_entry_without_url
      [of "\<lparr>OneDriveChild.name = ''h2c-2.jpg'', graph_downloadUrl = None,
            content_downloadUrl = None\<rparr>"
          "[\<lparr>OneDriveChild.name = ''h2c-3.jpg'', graph_downloadUrl = None,
             content_downloadUrl = Some ''u3''\<rparr>]"
          "[\<lparr>OneDriveChild.name = ''h2c-1.jpg'', graph_downloadUrl = None,
             content_downloadUrl = Some ''u1''\<rparr>]"
          "\<lambda>a b. 0" 200 False initial_hook_state]
    by simp
qed

end
